theory Spec2Isabelle
  imports Main "HOL-Library.Sublist"
begin

section \<open>Python values used by the crawler\<close>

text \<open>
  The exceptions that the modelled functions can raise. A function that can raise
  returns \<open>py_error + 'a\<close>, with \<open>Inl\<close> for the exception.
\<close>

datatype py_error =
    AttributeError    \<comment> \<open>attribute access on \<open>None\<close>, as in \<open>None.a\<close>\<close>
  | TypeError         \<comment> \<open>\<open>None['href']\<close>, or \<open>''.join\<close> over a list holding \<open>None\<close>\<close>
  | KeyError          \<comment> \<open>\<open>tag['href']\<close> on a tag without that attribute\<close>
  | NameError         \<comment> \<open>a name that is bound nowhere\<close>
  | FileNotFoundError \<comment> \<open>\<open>os.chdir\<close> to a path that does not exist\<close>
  | NotADirectoryError \<comment> \<open>\<open>os.chdir\<close> to a path that is no directory\<close>
  | PermissionError   \<comment> \<open>\<open>os.chdir\<close> to a directory that may not be entered\<close>
  | URLError          \<comment> \<open>raised by \<open>urlopen\<close> or by the browser driver\<close>

text \<open>Sequencing of calls that may raise: the first exception ends the computation.\<close>

definition bind_err :: "py_error + 'a \<Rightarrow> ('a \<Rightarrow> py_error + 'b) \<Rightarrow> py_error + 'b" where
  "bind_err m f = (case m of Inl e \<Rightarrow> Inl e | Inr x \<Rightarrow> f x)"

text \<open>Python's \<open>sub in s\<close> on strings: \<open>sub\<close> occurs in \<open>s\<close> as a contiguous substring.\<close>

fun startswith :: "string \<Rightarrow> string \<Rightarrow> bool" where
  "startswith s [] = True"
| "startswith [] (c # sub) = False"
| "startswith (d # s) (c # sub) = (d = c \<and> startswith s sub)"

fun py_in :: "string \<Rightarrow> string \<Rightarrow> bool" where
  "py_in sub [] = (sub = [])"
| "py_in sub (c # s) = (startswith (c # s) sub \<or> py_in sub s)"

text \<open>Truth value of an optional string: \<open>None\<close> and the empty string are false.\<close>

fun truthy :: "string option \<Rightarrow> bool" where
  "truthy None = False"
| "truthy (Some s) = (s \<noteq> [])"

section \<open>Known file formats and domains (\<open>crawlddit.py\<close>)\<close>

definition FILE_FORMATS :: "string list" where
  "FILE_FORMATS = [''.jpg'', ''.jpeg'', ''.png'', ''.gif'', ''.webm'']"

definition DOMAINS :: "string list" where
  "DOMAINS = [''reddit'', ''imgur'', ''gfycat'', ''tumblr'', ''blogspot'']"

text \<open>
  The loop \<open>for x in xs: if x in url: return x\<close> followed by \<open>return None\<close>,
  shared by \<open>known_domain\<close> and \<open>known_file_format\<close>.
\<close>

fun first_in :: "string list \<Rightarrow> string \<Rightarrow> string option" where
  "first_in [] url = None"
| "first_in (x # xs) url = (if py_in x url then Some x else first_in xs url)"

definition known_domain :: "string \<Rightarrow> string option" where
  "known_domain url = first_in DOMAINS url"

definition known_file_format :: "string \<Rightarrow> string option" where
  "known_file_format url = first_in FILE_FORMATS url"

section \<open>File name of a media URL\<close>

text \<open>\<open>url.split('/')[-1]\<close>: the part of the string after its last \<open>/\<close>.\<close>

fun last_segment_acc :: "string \<Rightarrow> string \<Rightarrow> string" where
  "last_segment_acc acc [] = rev acc"
| "last_segment_acc acc (c # s) =
     (if c = CHR ''/'' then last_segment_acc [] s else last_segment_acc (c # acc) s)"

definition last_segment :: "string \<Rightarrow> string" where
  "last_segment url = last_segment_acc [] url"

text \<open>
  \<open>re.match('.+\\' + extension, candidate)\<close> for an extension that starts with a dot:
  the pattern is \<open>.+\<close> followed by the literal extension. \<open>.\<close> matches every
  character but the line feed, \<open>+\<close> is greedy and backtracks, and the match is anchored
  at the start of the candidate. \<open>dot_star\<close> is \<open>.*\<close> followed by the literal;
  the result is the matched text (\<open>group(0)\<close>), \<open>None\<close> when nothing matches.
\<close>

fun dot_star :: "string \<Rightarrow> string \<Rightarrow> string option" where
  "dot_star lit [] = (if lit = [] then Some [] else None)"
| "dot_star lit (c # s) =
     (case (if c = CHR 0x0A then None else dot_star lit s) of
        Some m \<Rightarrow> Some (c # m)
      | None \<Rightarrow> (if startswith (c # s) lit then Some lit else None))"

fun dot_plus :: "string \<Rightarrow> string \<Rightarrow> string option" where
  "dot_plus lit [] = None"
| "dot_plus lit (c # s) =
     (if c = CHR 0x0A then None else map_option (Cons c) (dot_star lit s))"

text \<open>
  \<open>get_image_filename\<close>. With no known extension in the URL, \<open>extension\<close> is
  \<open>None\<close> and \<open>''.join(['.+\\', None])\<close> raises TypeError; when the pattern does not
  match, \<open>re.match\<close> returns \<open>None\<close> and \<open>.group(0)\<close> raises AttributeError.
\<close>

definition get_image_filename :: "string \<Rightarrow> py_error + string" where
  "get_image_filename url =
     (let candidate = last_segment url in
      case known_file_format url of
        None \<Rightarrow> Inl TypeError
      | Some extension \<Rightarrow>
          (case dot_plus extension candidate of
             None \<Rightarrow> Inl AttributeError
           | Some m \<Rightarrow> Inr m))"

section \<open>The parsed documents\<close>

text \<open>
  The HTML parser is an external collaborator. A parsed document is modelled by what the
  queries of the source return on it: \<open>find\<close> and the \<open>.a\<close> shortcut give
  \<open>None\<close> when no element matches, an attribute may be missing, and \<open>.string\<close>
  is \<open>None\<close> for a tag without a single text child.
\<close>

record a_tag =
  attr_href :: "string option"
  tag_string :: "string option"

record span_tag =
  span_a :: "a_tag option"

record p_tag =
  p_a :: "a_tag option"
  p_find_span_domain :: "span_tag option"

record li_tag =
  li_a :: "a_tag option"

record time_tag =
  attr_datetime :: "string option"

text \<open>A post container: \<open>div.find\<close> of the title paragraph, of \<open>li.first\<close> and of \<open>time\<close>.\<close>

record div_tag =
  find_p_title :: "p_tag option"
  find_li_first :: "li_tag option"
  find_time :: "time_tag option"

text \<open>A listing page: the post containers in document order and \<open>span.next-button\<close>.\<close>

record soup =
  find_all_things :: "div_tag list"
  find_span_next_button :: "span_tag option"

text \<open>A gfycat page: the element \<open>source\<close> with id \<open>webmSource\<close>.\<close>

record source_tag =
  attr_src :: "string option"

record gfycat_soup =
  find_source_webmSource :: "source_tag option"

text \<open>\<open>x.a\<close> and \<open>x.string\<close>, \<open>x.find(...)\<close>, \<open>x.has_attr(...)\<close>: AttributeError on \<open>None\<close>.\<close>

definition attribute_of :: "'t option \<Rightarrow> ('t \<Rightarrow> 'b) \<Rightarrow> py_error + 'b" where
  "attribute_of x f = (case x of None \<Rightarrow> Inl AttributeError | Some t \<Rightarrow> Inr (f t))"

text \<open>\<open>x['name']\<close>: TypeError on \<open>None\<close>, KeyError when the tag has no such attribute.\<close>

definition subscript :: "'t option \<Rightarrow> ('t \<Rightarrow> string option) \<Rightarrow> py_error + string" where
  "subscript x attr =
     (case x of
        None \<Rightarrow> Inl TypeError
      | Some t \<Rightarrow> (case attr t of None \<Rightarrow> Inl KeyError | Some v \<Rightarrow> Inr v))"

section \<open>Extraction of one post (\<open>crawlddit.py\<close>)\<close>

definition get_p_title_tag :: "div_tag \<Rightarrow> p_tag option" where
  "get_p_title_tag dv = find_p_title dv"

definition get_post_url :: "div_tag \<Rightarrow> py_error + string" where
  "get_post_url dv =
     bind_err (attribute_of (get_p_title_tag dv) p_a) (\<lambda>a. subscript a attr_href)"

definition get_post_domain :: "div_tag \<Rightarrow> py_error + string option" where
  "get_post_domain dv =
     bind_err (attribute_of (get_p_title_tag dv) p_find_span_domain) (\<lambda>span.
     bind_err (attribute_of span span_a) (\<lambda>a.
     attribute_of a tag_string))"

definition get_post_title :: "div_tag \<Rightarrow> py_error + string option" where
  "get_post_title dv =
     bind_err (attribute_of (get_p_title_tag dv) p_a) (\<lambda>a. attribute_of a tag_string)"

text \<open>\<open>time['datetime'] if time.has_attr('datetime') else None\<close>.\<close>

definition get_post_timestamp :: "div_tag \<Rightarrow> py_error + string option" where
  "get_post_timestamp dv =
     bind_err (attribute_of (find_time dv) (\<lambda>t. attr_datetime t \<noteq> None)) (\<lambda>has_attr.
     if has_attr then map_sum id Some (subscript (find_time dv) attr_datetime) else Inr None)"

definition get_link_to_comments :: "div_tag \<Rightarrow> py_error + string" where
  "get_link_to_comments dv =
     bind_err (attribute_of (find_li_first dv) li_a) (\<lambda>a. subscript a attr_href)"

section \<open>Media link resolution\<close>

text \<open>
  \<open>parse_gfycat\<close>. \<open>make_soup\<close> fetches the URL with \<open>urlopen\<close> and parses the
  answer; it is a parameter of the model, and it may raise. A found tag is always true.
\<close>

definition parse_gfycat ::
  "(string \<Rightarrow> py_error + gfycat_soup) \<Rightarrow> string \<Rightarrow> py_error + string option" where
  "parse_gfycat make_soup url =
     bind_err (make_soup url) (\<lambda>soup.
     case find_source_webmSource soup of
       Some source \<Rightarrow> map_sum id Some (subscript (Some source) attr_src)
     | None \<Rightarrow> Inr None)"

text \<open>The domain is the result of \<open>known_domain\<close>, a string or \<open>None\<close>.\<close>

definition get_image_link_from_allowed_domain ::
  "(string \<Rightarrow> py_error + gfycat_soup) \<Rightarrow> string \<Rightarrow> string option \<Rightarrow> py_error + string option"
where
  "get_image_link_from_allowed_domain make_soup url domain =
     (if domain = Some ''reddit'' then Inr None
      else if domain = Some ''imgur'' then Inr None
      else if domain = Some ''gfycat'' then parse_gfycat make_soup url
      else if domain = Some ''tumblr'' then Inr None
      else if domain = Some ''blogspot'' then Inr None
      else Inr None)"

text \<open>The dictionary \<open>{'image_url': ..., 'filename': ...}\<close>.\<close>

record image_dict =
  key_image_url :: "string option"
  key_filename :: "string option"

definition image_dictionary :: "string option \<Rightarrow> string option \<Rightarrow> image_dict" where
  "image_dictionary url filename = \<lparr>key_image_url = url, key_filename = filename\<rparr>"

definition get_image ::
  "(string \<Rightarrow> py_error + gfycat_soup) \<Rightarrow> div_tag \<Rightarrow> py_error + image_dict" where
  "get_image make_soup dv =
     bind_err (get_post_url dv) (\<lambda>url.
     if truthy (known_file_format url)
     then bind_err (get_image_filename url) (\<lambda>name.
          Inr (image_dictionary (Some url) (Some name)))
     else bind_err (get_image_link_from_allowed_domain make_soup url (known_domain url))
          (\<lambda>image_url.
          bind_err (case image_url of
                      Some u \<Rightarrow> (if truthy image_url
                                 then map_sum id Some (get_image_filename u) else Inr None)
                    | None \<Rightarrow> Inr None) (\<lambda>filename.
          Inr (image_dictionary image_url filename))))"

section \<open>Extraction of one page\<close>

text \<open>The dictionary built for each post container.\<close>

record post =
  key_url :: string
  key_image :: image_dict
  key_domain :: "string option"
  key_post_title :: "string option"
  key_posted_on :: "string option"
  key_link_to_comments :: string
  key_on_page :: "string option"
  key_html_status_token :: int

text \<open>The values of the dictionary display are evaluated in the order they are written.\<close>

definition post_of_div ::
  "(string \<Rightarrow> py_error + gfycat_soup) \<Rightarrow> string option \<Rightarrow> div_tag \<Rightarrow> py_error + post" where
  "post_of_div make_soup url dv =
     bind_err (get_post_url dv) (\<lambda>u.
     bind_err (get_image make_soup dv) (\<lambda>i.
     bind_err (get_post_domain dv) (\<lambda>d.
     bind_err (get_post_title dv) (\<lambda>t.
     bind_err (get_post_timestamp dv) (\<lambda>p.
     bind_err (get_link_to_comments dv) (\<lambda>c.
     Inr \<lparr>key_url = u, key_image = i, key_domain = d, key_post_title = t,
          key_posted_on = p, key_link_to_comments = c, key_on_page = url,
          key_html_status_token = 0\<rparr>))))))"

text \<open>
  \<open>deque(... for div in things)\<close>: the records are built in document order, and an
  exception raised for one container leaves the generator and the function.
\<close>

fun deque_of :: "('a \<Rightarrow> py_error + 'b) \<Rightarrow> 'a list \<Rightarrow> py_error + 'b list" where
  "deque_of f [] = Inr []"
| "deque_of f (x # xs) =
     bind_err (f x) (\<lambda>y. bind_err (deque_of f xs) (\<lambda>ys. Inr (y # ys)))"

definition get_files_from_a_page ::
  "(string \<Rightarrow> py_error + gfycat_soup) \<Rightarrow> soup \<Rightarrow> string option
     \<Rightarrow> py_error + (post list \<times> string option)" where
  "get_files_from_a_page make_soup sp url =
     bind_err (deque_of (post_of_div make_soup url) (find_all_things sp)) (\<lambda>images.
     bind_err (case find_span_next_button sp of
                 Some next_page_span \<Rightarrow>
                   map_sum id Some (subscript (span_a next_page_span) attr_href)
               | None \<Rightarrow> Inr None) (\<lambda>next_page.
     Inr (images, next_page)))"

section \<open>The crawl loop\<close>

text \<open>
  The variables of \<open>get_all_posts\<close> that the loop changes. \<open>fetched\<close> is not a variable
  of the source: it lists the arguments of the calls of \<open>make_beautiful_soup\<close> so far.
\<close>

record crawl_state =
  var_url :: "string option"
  var_page :: int
  var_crawl :: bool
  var_images :: "post list"
  fetched :: "string option list"

text \<open>
  One run of the loop body. \<open>make_beautiful_soup\<close> (the browser session) is a parameter.
  The politeness delay has no effect on the result and is left out.
\<close>

definition loop_body ::
  "(string option \<Rightarrow> py_error + soup) \<Rightarrow> (string \<Rightarrow> py_error + gfycat_soup) \<Rightarrow> int
     \<Rightarrow> crawl_state \<Rightarrow> py_error + crawl_state" where
  "loop_body make_beautiful_soup make_soup pages s =
     bind_err (make_beautiful_soup (var_url s)) (\<lambda>sp.
     bind_err (get_files_from_a_page make_soup sp (var_url s)) (\<lambda>(pictures, next_page).
     Inr \<lparr>var_url = next_page,
          var_page = (if pages \<noteq> 0 then var_page s + 1 else var_page s),
          var_crawl = (if \<not> truthy next_page then False else var_crawl s),
          var_images = var_images s @ pictures,
          fetched = fetched s @ [var_url s]\<rparr>))"

text \<open>
  \<open>while (page <= pages) and crawl\<close>. The loop need not end (with \<open>pages = 0\<close> it runs
  as long as pages have a next page), so it is a partial function: \<open>None\<close> stands for a
  run that never returns. A result is the outcome, the images or the exception that
  ended the crawl, with the list of the pages fetched.
\<close>

partial_function (option) crawl_loop ::
  "(string option \<Rightarrow> py_error + soup) \<Rightarrow> (string \<Rightarrow> py_error + gfycat_soup) \<Rightarrow> int
     \<Rightarrow> crawl_state \<Rightarrow> ((py_error + post list) \<times> string option list) option" where
  "crawl_loop make_beautiful_soup make_soup pages s =
     (if var_page s \<le> pages \<and> var_crawl s
      then (case loop_body make_beautiful_soup make_soup pages s of
              Inl e \<Rightarrow> Some (Inl e, fetched s @ [var_url s])
            | Inr s' \<Rightarrow> crawl_loop make_beautiful_soup make_soup pages s')
      else Some (Inr (var_images s), fetched s))"

definition get_all_posts ::
  "(string option \<Rightarrow> py_error + soup) \<Rightarrow> (string \<Rightarrow> py_error + gfycat_soup) \<Rightarrow> string
     \<Rightarrow> int \<Rightarrow> ((py_error + post list) \<times> string option list) option" where
  "get_all_posts make_beautiful_soup make_soup url pages =
     crawl_loop make_beautiful_soup make_soup pages
       \<lparr>var_url = Some url, var_page = (if pages \<noteq> 0 then 1 else 0), var_crawl = True,
        var_images = [], fetched = []\<rparr>"

section \<open>The downloader (\<open>utils/downloader.py\<close>)\<close>

text \<open>A row of the table \<open>images\<close> of \<open>DB_TEMPLATE\<close>; every column but the key may be NULL.\<close>

record images_row =
  col_id :: int
  col_PostUrl :: "string option"
  col_ImageUrl :: "string option"
  col_Filename :: "string option"
  col_Domain :: "string option"
  col_PostTitle :: "string option"
  col_CommentSectionUrl :: "string option"
  col_PostedOn :: "string option"
  col_LastHtmlStatusCode :: "int option"
  col_Downloaded :: "int option"
  col_DownloadDate :: "string option"

text \<open>
  What the downloader can read and change outside its own variables: the working
  directory, the file system's answer to a change of directory, the database files
  (path to the rows of \<open>images\<close>) and the media files written to disk (the URLs
  transferred so far). \<open>os_chdir w c p\<close> is what the operating system does with
  \<open>os.chdir(p)\<close> when the working directory is \<open>c\<close>: the new working directory, with
  a relative \<open>p\<close> resolved against \<open>c\<close>, or the exception it raises.
\<close>

record world =
  cwd :: string
  os_chdir :: "string \<Rightarrow> string \<Rightarrow> py_error + string"
  databases :: "string \<rightharpoonup> images_row list"
  transferred :: "string list"

definition chdir :: "string \<Rightarrow> world \<Rightarrow> py_error + world" where
  "chdir path w =
     (case os_chdir w (cwd w) path of
        Inl e \<Rightarrow> Inl e
      | Inr dir \<Rightarrow> Inr (w\<lparr>cwd := dir\<rparr>))"

text \<open>
  The loop \<open>while files: file_obj = files.popleft(); ...\<close> of \<open>download_files\<close>. Its
  body calls \<open>display_status\<close> for a record with a media URL when \<open>verbose\<close> is set;
  the module neither defines nor imports that name, so the call raises NameError.
  The body holds no other statement.
\<close>

fun download_loop :: "post list \<Rightarrow> bool \<Rightarrow> world \<Rightarrow> (py_error + unit) \<times> world" where
  "download_loop [] verbose w = (Inr (), w)"
| "download_loop (file_obj # files) verbose w =
     (if truthy (key_image_url (key_image file_obj))
      then (if verbose then (Inl NameError, w) else download_loop files verbose w)
      else download_loop files verbose w)"

text \<open>
  \<open>download_files\<close>. After \<open>os.chdir(destination)\<close> the function evaluates
  \<open>clean_path(path)\<close>; \<open>path\<close> is no parameter or local variable of the function
  and no global name of the module (the parameter is called \<open>destination\<close>), so the
  evaluation raises NameError. The lines after it, which create the schema, open the
  database and run the loop above, are never reached, and neither is the final
  \<open>os.chdir(current_directory)\<close>.
\<close>

definition download_files ::
  "post list \<Rightarrow> string \<Rightarrow> bool \<Rightarrow> world \<Rightarrow> (py_error + unit) \<times> world" where
  "download_files files destination verbose w =
     (case chdir destination w of
        Inl e \<Rightarrow> (Inl e, w)
      | Inr w' \<Rightarrow> (Inl NameError, w'))"

text \<open>The number of rows of a database that are stored for a post URL.\<close>

definition rows_for :: "world \<Rightarrow> string \<Rightarrow> string \<Rightarrow> nat" where
  "rows_for w db_path source_url =
     (case databases w db_path of
        None \<Rightarrow> 0
      | Some rows \<Rightarrow> length (filter (\<lambda>r. col_PostUrl r = Some source_url) rows))"

section \<open>Example documents\<close>

text \<open>Concrete pages and sites, used to run the functions above.\<close>

definition link :: "string \<Rightarrow> string \<Rightarrow> a_tag" where
  "link target label = \<lparr>attr_href = Some target, tag_string = Some label\<rparr>"

text \<open>A well-formed post container whose title links to \<open>target\<close>.\<close>

definition post_div :: "string \<Rightarrow> div_tag" where
  "post_div target =
     \<lparr>find_p_title = Some \<lparr>p_a = Some (link target ''A post''),
                           p_find_span_domain =
                             Some \<lparr>span_a = Some (link ''/domain/'' ''example.com'')\<rparr>\<rparr>,
      find_li_first = Some \<lparr>li_a = Some (link ''/comments/1'' ''comments'')\<rparr>,
      find_time = Some \<lparr>attr_datetime = Some ''2017-03-01T12:00:00+00:00''\<rparr>\<rparr>"

text \<open>The same container without its \<open>li.first\<close> element (the link to the comments).\<close>

definition post_div_no_comments :: "string \<Rightarrow> div_tag" where
  "post_div_no_comments target = (post_div target)\<lparr>find_li_first := None\<rparr>"

text \<open>The same container with its \<open>li.first\<close> element, but no link inside it.\<close>

definition post_div_no_comments_link :: "string \<Rightarrow> div_tag" where
  "post_div_no_comments_link target =
     (post_div target)\<lparr>find_li_first := Some \<lparr>li_a = None\<rparr>\<rparr>"

text \<open>The same container without the domain label beside the title.\<close>

definition post_div_no_domain :: "string \<Rightarrow> div_tag" where
  "post_div_no_domain target =
     (post_div target)
       \<lparr>find_p_title := Some \<lparr>p_a = Some (link target ''A post''), p_find_span_domain = None\<rparr>\<rparr>"

text \<open>
  A container whose \<open>time\<close> element has no \<open>datetime\<close> attribute and whose domain label
  and title links hold no single text.
\<close>

definition post_div_sparse :: "string \<Rightarrow> div_tag" where
  "post_div_sparse target =
     \<lparr>find_p_title = Some \<lparr>p_a = Some \<lparr>attr_href = Some target, tag_string = None\<rparr>,
                           p_find_span_domain =
                             Some \<lparr>span_a = Some \<lparr>attr_href = None, tag_string = None\<rparr>\<rparr>\<rparr>,
      find_li_first = Some \<lparr>li_a = Some (link ''/comments/2'' ''comments'')\<rparr>,
      find_time = Some \<lparr>attr_datetime = None\<rparr>\<rparr>"

text \<open>A listing page with the given containers and the given \<open>href\<close> of its next button.\<close>

definition listing :: "div_tag list \<Rightarrow> string option \<Rightarrow> soup" where
  "listing things next_href =
     \<lparr>find_all_things = things,
      find_span_next_button =
        (case next_href of
           None \<Rightarrow> None
         | Some h \<Rightarrow> Some \<lparr>span_a = Some (link h ''next'')\<rparr>)\<rparr>"

text \<open>A site that answers every request with the same page.\<close>

definition same_page :: "soup \<Rightarrow> string option \<Rightarrow> py_error + soup" where
  "same_page sp url = Inr sp"

text \<open>
  A listing of two pages: three posts on the first (a direct link to a \<open>.png\<close>, a link
  to a domain that is not known, a link to gfycat), one post and no next button on the
  second.
\<close>

definition two_pages :: "string option \<Rightarrow> py_error + soup" where
  "two_pages url =
     (if url = Some ''/r/pics''
      then Inr (listing [post_div ''http://i.imgur.com/a.png'',
                         post_div ''http://example.com/gallery'',
                         post_div ''https://gfycat.com/Clip'']
                  (Some ''/r/pics?count=25''))
      else Inr (listing [post_div ''http://example.com/story''] None))"

text \<open>No host can be reached: every \<open>urlopen\<close> raises.\<close>

definition no_network :: "string \<Rightarrow> py_error + gfycat_soup" where
  "no_network url = Inl URLError"

text \<open>Every gfycat page holds a \<open>webmSource\<close> element with the given \<open>src\<close>.\<close>

definition gfycat_with_src :: "string \<Rightarrow> string \<Rightarrow> py_error + gfycat_soup" where
  "gfycat_with_src src url = Inr \<lparr>find_source_webmSource = Some \<lparr>attr_src = Some src\<rparr>\<rparr>"

text \<open>
  A file system with the directories \<open>/home/user\<close> and \<open>/home/user/memes\<close>, the
  second also reached as \<open>memes\<close> from the first.
\<close>

definition memes_fs :: "string \<Rightarrow> string \<Rightarrow> py_error + string" where
  "memes_fs c p =
     (if p = ''/home/user'' \<or> p = ''/home/user/memes'' then Inr p
      else if c = ''/home/user'' \<and> p = ''memes'' then Inr ''/home/user/memes''
      else Inl FileNotFoundError)"

text \<open>A destination directory that exists and holds no database yet.\<close>

definition fresh_world :: world where
  "fresh_world =
     \<lparr>cwd = ''/home/user'', os_chdir = memes_fs,
      databases = Map.empty, transferred = []\<rparr>"

text \<open>A crawled record with a resolved media URL.\<close>

definition png_record :: post where
  "png_record =
     \<lparr>key_url = ''http://i.imgur.com/a.png'',
      key_image = \<lparr>key_image_url = Some ''http://i.imgur.com/a.png'',
                   key_filename = Some ''a.png''\<rparr>,
      key_domain = Some ''i.imgur.com'', key_post_title = Some ''A post'',
      key_posted_on = Some ''2017-03-01T12:00:00+00:00'',
      key_link_to_comments = ''/comments/1'', key_on_page = Some ''/r/pics'',
      key_html_status_token = 0\<rparr>"

section \<open>Auxiliary facts\<close>

subsection \<open>Evaluation\<close>

lemmas fixture_defs = link_def post_div_def post_div_no_comments_def
  post_div_no_comments_link_def post_div_no_domain_def
  post_div_sparse_def listing_def same_page_def two_pages_def no_network_def gfycat_with_src_def

lemmas extract_defs = get_p_title_tag_def get_post_url_def get_post_domain_def get_post_title_def
  get_post_timestamp_def get_link_to_comments_def attribute_of_def subscript_def bind_err_def
  parse_gfycat_def get_image_link_from_allowed_domain_def image_dictionary_def get_image_def
  post_of_div_def get_files_from_a_page_def get_image_filename_def known_file_format_def
  known_domain_def FILE_FORMATS_def DOMAINS_def last_segment_def

subsection \<open>Substrings\<close>

lemma startswith_prefix: "startswith s sub \<longleftrightarrow> (\<exists>r. s = sub @ r)"
  by (induction s sub rule: startswith.induct) auto

lemma py_in_iff: "py_in sub s \<longleftrightarrow> (\<exists>ps ss. s = ps @ sub @ ss)"
proof (induction s)
  case Nil
  then show ?case by auto
next
  case (Cons c s)
  show ?case
  proof
    assume "py_in sub (c # s)"
    then consider "startswith (c # s) sub" | "py_in sub s" by auto
    then show "\<exists>ps ss. c # s = ps @ sub @ ss"
    proof cases
      case 1
      then obtain r where "c # s = sub @ r" by (auto simp: startswith_prefix)
      then have "c # s = [] @ sub @ r" by simp
      then show ?thesis by blast
    next
      case 2
      then obtain ps ss where "s = ps @ sub @ ss" using Cons.IH by blast
      then have "c # s = (c # ps) @ sub @ ss" by simp
      then show ?thesis by blast
    qed
  next
    assume "\<exists>ps ss. c # s = ps @ sub @ ss"
    then obtain ps ss where eq: "c # s = ps @ sub @ ss" by blast
    show "py_in sub (c # s)"
    proof (cases ps)
      case Nil
      with eq have "startswith (c # s) sub" by (auto simp: startswith_prefix)
      then show ?thesis by simp
    next
      case (Cons a ps')
      with eq have "s = ps' @ sub @ ss" by simp
      then have "py_in sub s" using Cons.IH by blast
      then show ?thesis by simp
    qed
  qed
qed

lemma first_in_find: "first_in xs url = find (\<lambda>x. \<exists>ps ss. url = ps @ x @ ss) xs"
  by (induction xs) (simp_all add: py_in_iff)

lemma first_in_set: "first_in xs u = Some e \<Longrightarrow> e \<in> set xs"
  by (induction xs) (auto split: if_splits)

lemma known_file_format_Nil: "known_file_format [] = None"
  by (simp add: known_file_format_def FILE_FORMATS_def)

lemma truthy_known_file_format: "truthy (known_file_format u) \<longleftrightarrow> known_file_format u \<noteq> None"
proof (cases "known_file_format u")
  case None
  then show ?thesis by simp
next
  case (Some e)
  then have "e \<in> set FILE_FORMATS" by (auto simp: known_file_format_def dest: first_in_set)
  then have "e \<noteq> []" by (auto simp: FILE_FORMATS_def)
  with Some show ?thesis by simp
qed

subsection \<open>The last path segment\<close>

lemma last_segment_acc_no_slash:
  "CHR ''/'' \<notin> set s \<Longrightarrow> last_segment_acc acc s = rev acc @ s"
  by (induction s arbitrary: acc) auto

lemma last_segment_acc_after_slash:
  "last_segment_acc acc (pre @ CHR ''/'' # s) = last_segment_acc [] s"
  by (induction pre arbitrary: acc) auto

lemma last_segment_acc_decomp:
  "\<exists>pre. rev acc @ s = pre @ last_segment_acc acc s \<and>
     (CHR ''/'' \<notin> set acc \<longrightarrow> CHR ''/'' \<notin> set (last_segment_acc acc s)) \<and>
     (CHR ''/'' \<in> set s \<longrightarrow> pre \<noteq> [] \<and> last pre = CHR ''/'') \<and>
     (CHR ''/'' \<notin> set s \<longrightarrow> pre = [])"
proof (induction s arbitrary: acc)
  case Nil
  then show ?case by simp
next
  case (Cons c s)
  show ?case
  proof (cases "c = CHR ''/''")
    case True
    from Cons.IH [of "[]"] obtain pre where
      pre: "s = pre @ last_segment_acc [] s" "CHR ''/'' \<notin> set (last_segment_acc [] s)"
      by auto
    let ?pre = "rev acc @ CHR ''/'' # pre"
    have "rev acc @ c # s = ?pre @ last_segment_acc acc (c # s)"
      using True pre(1) by simp
    moreover have "CHR ''/'' \<notin> set (last_segment_acc acc (c # s))" using True pre(2) by simp
    moreover have "?pre \<noteq> [] \<and> last ?pre = CHR ''/''"
    proof (cases "CHR ''/'' \<in> set s")
      case t: True
      with Cons.IH [of "[]"] pre(1) have "pre \<noteq> [] \<and> last pre = CHR ''/''"
        by (metis append_same_eq rev.simps(1) append_Nil)
      then show ?thesis by simp
    next
      case False
      with Cons.IH [of "[]"] pre(1) have "pre = []"
        by (metis append_same_eq rev.simps(1) append_Nil)
      then show ?thesis by simp
    qed
    ultimately show ?thesis using True by (metis list.set_intros(1))
  next
    case False
    from Cons.IH [of "c # acc"] False show ?thesis by auto
  qed
qed

lemma last_segment_iff:
  "last_segment url = seg \<longleftrightarrow>
     (\<exists>pre. url = pre @ seg \<and> CHR ''/'' \<notin> set seg \<and> (pre = [] \<or> last pre = CHR ''/''))"
proof
  assume "last_segment url = seg"
  with last_segment_acc_decomp [of "[]" url] show
    "\<exists>pre. url = pre @ seg \<and> CHR ''/'' \<notin> set seg \<and> (pre = [] \<or> last pre = CHR ''/'')"
    unfolding last_segment_def by (metis append_Nil empty_iff empty_set rev.simps(1))
next
  assume "\<exists>pre. url = pre @ seg \<and> CHR ''/'' \<notin> set seg \<and> (pre = [] \<or> last pre = CHR ''/'')"
  then obtain pre where url: "url = pre @ seg" and seg: "CHR ''/'' \<notin> set seg"
    and pre: "pre = [] \<or> last pre = CHR ''/''" by blast
  show "last_segment url = seg"
  proof (cases "pre = []")
    case True
    with url seg show ?thesis by (simp add: last_segment_def last_segment_acc_no_slash)
  next
    case False
    with pre have "pre = butlast pre @ [CHR ''/'']" by (metis append_butlast_last_id)
    with url have "url = butlast pre @ CHR ''/'' # seg"
      by (metis append_Cons append_Nil append_assoc)
    then show ?thesis
      using seg
      by (simp add: last_segment_def last_segment_acc_after_slash last_segment_acc_no_slash)
  qed
qed

subsection \<open>The pattern match\<close>

lemma dot_star_None:
  "dot_star lit s = None \<Longrightarrow> s = p @ lit @ r \<Longrightarrow> CHR 0x0A \<in> set p"
proof (induction s arbitrary: p)
  case Nil
  then show ?case by (auto split: if_splits)
next
  case (Cons c s)
  from Cons.prems(1) have nolit: "\<not> startswith (c # s) lit"
    by (auto split: option.splits if_splits)
  show ?case
  proof (cases p)
    case Nil
    with Cons.prems(2) have "startswith (c # s) lit" by (auto simp: startswith_prefix)
    with nolit show ?thesis by simp
  next
    case (Cons a q)
    with Cons.prems(2) have a: "a = c" and s: "s = q @ lit @ r" by auto
    show ?thesis
    proof (cases "c = CHR 0x0A")
      case True
      with a Cons show ?thesis by simp
    next
      case False
      with Cons.prems(1) have "dot_star lit s = None" by (auto split: option.splits)
      from Cons.IH [OF this s] Cons show ?thesis by simp
    qed
  qed
qed

lemma dot_star_Some:
  "dot_star lit s = Some m \<Longrightarrow> \<exists>p r. s = p @ lit @ r \<and> m = p @ lit \<and> CHR 0x0A \<notin> set p"
proof (induction s arbitrary: m)
  case Nil
  then show ?case by (auto split: if_splits)
next
  case (Cons c s)
  show ?case
  proof (cases "if c = CHR 0x0A then None else dot_star lit s")
    case None
    with Cons.prems have "startswith (c # s) lit" and m: "m = lit"
      by (auto split: if_splits)
    then obtain r where "c # s = [] @ lit @ r" by (auto simp: startswith_prefix)
    with m show ?thesis by (metis append_Nil empty_iff empty_set)
  next
    case (Some m')
    then have c: "c \<noteq> CHR 0x0A" and ds: "dot_star lit s = Some m'"
      by (auto split: if_splits)
    from Some Cons.prems have m: "m = c # m'" by simp
    from Cons.IH [OF ds] obtain p r where
      "s = p @ lit @ r" "m' = p @ lit" "CHR 0x0A \<notin> set p" by blast
    with c m have "c # s = (c # p) @ lit @ r \<and> m = (c # p) @ lit \<and> CHR 0x0A \<notin> set (c # p)"
      by simp
    then show ?thesis by blast
  qed
qed

lemma dot_star_longest:
  "dot_star lit s = Some m \<Longrightarrow> s = p @ lit @ r \<Longrightarrow> CHR 0x0A \<notin> set p
     \<Longrightarrow> length (p @ lit) \<le> length m"
proof (induction s arbitrary: m p)
  case Nil
  then show ?case by (auto split: if_splits)
next
  case (Cons c s)
  from dot_star_Some [OF Cons.prems(1)] have len: "length lit \<le> length m" by auto
  show ?case
  proof (cases p)
    case Nil
    with len show ?thesis by simp
  next
    case (Cons a q)
    with Cons.prems(2,3) have a: "a = c" and s: "s = q @ lit @ r"
      and q: "CHR 0x0A \<notin> set q" and c: "c \<noteq> CHR 0x0A" by auto
    from dot_star_None [of lit s q r] s q obtain m' where ds: "dot_star lit s = Some m'"
      by (cases "dot_star lit s") auto
    with c Cons.prems(1) have m: "m = c # m'" by simp
    from Cons.IH [OF ds s q] m Cons show ?thesis by simp
  qed
qed

lemma dot_plus_None:
  "dot_plus lit s = None \<Longrightarrow> s = p @ lit @ r \<Longrightarrow> p \<noteq> [] \<Longrightarrow> CHR 0x0A \<in> set p"
proof (cases s)
  case Nil
  assume "s = p @ lit @ r" "p \<noteq> []"
  with Nil show ?thesis by simp
next
  case (Cons c s')
  assume n: "dot_plus lit s = None" and eq: "s = p @ lit @ r" and ne: "p \<noteq> []"
  from ne obtain a q where p: "p = a # q" by (cases p) auto
  with eq Cons have a: "a = c" and s': "s' = q @ lit @ r" by auto
  show ?thesis
  proof (cases "c = CHR 0x0A")
    case True
    with a p show ?thesis by simp
  next
    case False
    with n Cons have "dot_star lit s' = None" by simp
    from dot_star_None [OF this s'] p show ?thesis by simp
  qed
qed

lemma dot_plus_Some:
  assumes "dot_plus lit s = Some m"
  shows "\<exists>p r. s = p @ lit @ r \<and> m = p @ lit \<and> p \<noteq> [] \<and> CHR 0x0A \<notin> set p"
proof (cases s)
  case Nil
  with assms show ?thesis by simp
next
  case (Cons c s')
  with assms have c: "c \<noteq> CHR 0x0A" by (auto split: if_splits)
  with assms Cons obtain m' where ds: "dot_star lit s' = Some m'" and m: "m = c # m'" by auto
  from dot_star_Some [OF ds] obtain p r where
    "s' = p @ lit @ r" "m' = p @ lit" "CHR 0x0A \<notin> set p" by blast
  with c m Cons have
    "s = (c # p) @ lit @ r \<and> m = (c # p) @ lit \<and> c # p \<noteq> [] \<and> CHR 0x0A \<notin> set (c # p)"
    by simp
  then show ?thesis by blast
qed

lemma dot_plus_longest:
  assumes "dot_plus lit s = Some m" "s = p @ lit @ r" "p \<noteq> []" "CHR 0x0A \<notin> set p"
  shows "length (p @ lit) \<le> length m"
proof (cases s)
  case Nil
  with assms show ?thesis by simp
next
  case (Cons c s')
  with assms(1) have c: "c \<noteq> CHR 0x0A" by (auto split: if_splits)
  with assms(1) Cons obtain m' where ds: "dot_star lit s' = Some m'" and m: "m = c # m'" by auto
  from assms(3) obtain a q where p: "p = a # q" by (cases p) auto
  with assms(2,4) Cons have s': "s' = q @ lit @ r" and q: "CHR 0x0A \<notin> set q" by auto
  from dot_star_longest [OF ds s' q] m p show ?thesis by simp
qed

lemma dot_plus_iff:
  "dot_plus lit s = Some m \<longleftrightarrow>
     (\<exists>p r. s = p @ lit @ r \<and> m = p @ lit \<and> p \<noteq> [] \<and> CHR 0x0A \<notin> set p \<and>
        (\<forall>p' r'. s = p' @ lit @ r' \<and> p' \<noteq> [] \<and> CHR 0x0A \<notin> set p' \<longrightarrow> length p' \<le> length p))"
  (is "?L \<longleftrightarrow> ?R")
proof
  assume l: ?L
  from dot_plus_Some [OF l] obtain p r where
    pr: "s = p @ lit @ r" "m = p @ lit" "p \<noteq> []" "CHR 0x0A \<notin> set p" by blast
  have "length p' \<le> length p" if "s = p' @ lit @ r'" "p' \<noteq> []" "CHR 0x0A \<notin> set p'" for p' r'
    using dot_plus_longest [OF l that] pr(2) by simp
  with pr show ?R by blast
next
  assume ?R
  then obtain p r where pr: "s = p @ lit @ r" "m = p @ lit" "p \<noteq> []" "CHR 0x0A \<notin> set p"
    and mx: "\<And>p' r'. s = p' @ lit @ r' \<Longrightarrow> p' \<noteq> [] \<Longrightarrow> CHR 0x0A \<notin> set p' \<Longrightarrow> length p' \<le> length p"
    by blast
  from dot_plus_None [of lit s p r] pr obtain m0 where m0: "dot_plus lit s = Some m0"
    by (cases "dot_plus lit s") auto
  from dot_plus_Some [OF m0] obtain p0 r0 where
    p0: "s = p0 @ lit @ r0" "m0 = p0 @ lit" "p0 \<noteq> []" "CHR 0x0A \<notin> set p0" by blast
  from mx [OF p0(1,3,4)] have "length p0 \<le> length p" .
  moreover from dot_plus_longest [OF m0 pr(1,3,4)] p0(2) have "length p \<le> length p0" by simp
  ultimately have "length p0 = length p" by simp
  with pr(1) p0(1) have "p0 = p" by (metis append_eq_append_conv)
  with m0 p0(2) pr(2) show ?L by simp
qed


subsection \<open>Extraction\<close>

lemma bind_err_Inl [simp]: "bind_err (Inl e) f = Inl e"
  by (simp add: bind_err_def)

lemma bind_err_Inr [simp]: "bind_err (Inr x) f = f x"
  by (simp add: bind_err_def)

lemma get_post_url_cases:
  "get_post_url dv =
     (case find_p_title dv of
        None \<Rightarrow> Inl AttributeError
      | Some p \<Rightarrow> (case p_a p of
          None \<Rightarrow> Inl TypeError
        | Some a \<Rightarrow> (case attr_href a of None \<Rightarrow> Inl KeyError | Some u \<Rightarrow> Inr u)))"
  by (simp add: get_post_url_def get_p_title_tag_def attribute_of_def subscript_def bind_err_def
      split: option.splits)

lemma get_link_to_comments_cases:
  "get_link_to_comments dv =
     (case find_li_first dv of
        None \<Rightarrow> Inl AttributeError
      | Some li \<Rightarrow> (case li_a li of
          None \<Rightarrow> Inl TypeError
        | Some a \<Rightarrow> (case attr_href a of None \<Rightarrow> Inl KeyError | Some u \<Rightarrow> Inr u)))"
  by (simp add: get_link_to_comments_def attribute_of_def subscript_def bind_err_def
      split: option.splits)

lemma get_post_domain_cases:
  "get_post_domain dv =
     (case find_p_title dv of
        None \<Rightarrow> Inl AttributeError
      | Some p \<Rightarrow> (case p_find_span_domain p of
          None \<Rightarrow> Inl AttributeError
        | Some span \<Rightarrow> (case span_a span of
            None \<Rightarrow> Inl AttributeError
          | Some a \<Rightarrow> Inr (tag_string a))))"
  by (simp add: get_post_domain_def get_p_title_tag_def attribute_of_def bind_err_def
      split: option.splits)

lemma get_post_title_cases:
  "get_post_title dv =
     (case find_p_title dv of
        None \<Rightarrow> Inl AttributeError
      | Some p \<Rightarrow> (case p_a p of
          None \<Rightarrow> Inl AttributeError
        | Some a \<Rightarrow> Inr (tag_string a)))"
  by (simp add: get_post_title_def get_p_title_tag_def attribute_of_def bind_err_def
      split: option.splits)

lemma get_post_timestamp_cases:
  "get_post_timestamp dv =
     (case find_time dv of
        None \<Rightarrow> Inl AttributeError
      | Some t \<Rightarrow> Inr (attr_datetime t))"
  by (auto simp: get_post_timestamp_def attribute_of_def subscript_def bind_err_def
      split: option.splits)

lemma post_of_div_no_comments:
  "find_li_first dv = None \<or> (\<exists>li. find_li_first dv = Some li \<and> li_a li = None) \<Longrightarrow>
     \<exists>e. post_of_div ms url dv = Inl e"
  by (auto simp: post_of_div_def bind_err_def get_link_to_comments_cases split: sum.splits)

lemma deque_of_fails: "x \<in> set xs \<Longrightarrow> f x = Inl e \<Longrightarrow> \<exists>e'. deque_of f xs = Inl e'"
proof (induction xs)
  case Nil
  then show ?case by simp
next
  case (Cons y ys)
  show ?case
  proof (cases "f y")
    case (Inl e1)
    then show ?thesis by simp
  next
    case (Inr v)
    with Cons.prems have "x \<in> set ys" by auto
    from Cons.IH [OF this Cons.prems(2)] Inr show ?thesis by auto
  qed
qed

lemma deque_of_Inr: "deque_of f xs = Inr ys \<longleftrightarrow> list_all2 (\<lambda>x y. f x = Inr y) xs ys"
proof (induction xs arbitrary: ys)
  case Nil
  then show ?case by auto
next
  case (Cons x xs)
  show ?case
  proof (cases "f x")
    case (Inl e)
    then show ?thesis by (auto simp: list_all2_Cons1)
  next
    case (Inr y)
    show ?thesis
    proof (cases "deque_of f xs")
      case (Inl e)
      with Inr Cons.IH show ?thesis by (auto simp: list_all2_Cons1)
    next
      case r: (Inr ys')
      with Inr Cons.IH show ?thesis by (auto simp: list_all2_Cons1)
    qed
  qed
qed

lemma page_fails:
  assumes "dv \<in> set (find_all_things sp)"
    and "find_li_first dv = None \<or> (\<exists>li. find_li_first dv = Some li \<and> li_a li = None)"
  shows "\<exists>e. get_files_from_a_page ms sp url = Inl e"
proof -
  from post_of_div_no_comments [OF assms(2)] obtain e where "post_of_div ms url dv = Inl e"
    by blast
  from deque_of_fails [where f = "post_of_div ms url", OF assms(1) this] obtain e' where
    "deque_of (post_of_div ms url) (find_all_things sp) = Inl e'" by blast
  then show ?thesis by (simp add: get_files_from_a_page_def)
qed

lemma crawl_fails:
  assumes "0 \<le> pages" "mbs (Some u) = Inr sp" "get_files_from_a_page ms sp (Some u) = Inl e"
  shows "get_all_posts mbs ms u pages = Some (Inl e, [Some u])"
  using assms unfolding get_all_posts_def
  by (subst crawl_loop.simps) (simp add: loop_body_def)

lemma get_image_filename_Inr: "get_image_filename u = Inr n \<Longrightarrow> known_file_format u \<noteq> None"
  by (auto simp: get_image_filename_def split: option.splits)

lemma parse_gfycat_cases:
  "parse_gfycat ms url =
     (case ms url of
        Inl e \<Rightarrow> Inl e
      | Inr sp \<Rightarrow> (case find_source_webmSource sp of
          None \<Rightarrow> Inr None
        | Some source \<Rightarrow> (case attr_src source of None \<Rightarrow> Inl KeyError | Some v \<Rightarrow> Inr (Some v))))"
  by (simp add: parse_gfycat_def subscript_def bind_err_def split: sum.splits option.splits)

subsection \<open>The crawl loop\<close>

lemma loop_body_cases:
  "loop_body mbs ms pages s =
     (case mbs (var_url s) of
        Inl e \<Rightarrow> Inl e
      | Inr sp \<Rightarrow>
          (case get_files_from_a_page ms sp (var_url s) of
             Inl e \<Rightarrow> Inl e
           | Inr (pictures, next_page) \<Rightarrow>
               Inr \<lparr>var_url = next_page,
                    var_page = (if pages \<noteq> 0 then var_page s + 1 else var_page s),
                    var_crawl = (if \<not> truthy next_page then False else var_crawl s),
                    var_images = var_images s @ pictures,
                    fetched = fetched s @ [var_url s]\<rparr>))"
  by (simp add: loop_body_def bind_err_def split: sum.splits prod.splits)

lemma loop_body_page:
  "loop_body mbs ms pages s = Inr s' \<Longrightarrow>
     var_page s' = (if pages \<noteq> 0 then var_page s + 1 else var_page s) \<and>
     fetched s' = fetched s @ [var_url s]"
  by (auto simp: loop_body_cases split: sum.splits prod.splits)

lemma crawl_loop_bounded:
  "0 < pages \<Longrightarrow> nat (pages + 1 - var_page s) = k \<Longrightarrow>
     \<exists>out fs. crawl_loop mbs ms pages s = Some (out, fs) \<and>
       length fs \<le> length (fetched s) + k"
proof (induction k arbitrary: s)
  case 0
  then have "\<not> var_page s \<le> pages" by simp
  then show ?case by (subst crawl_loop.simps) simp
next
  case (Suc k)
  show ?case
  proof (cases "var_page s \<le> pages \<and> var_crawl s")
    case False
    then show ?thesis by (subst crawl_loop.simps) auto
  next
    case True
    show ?thesis
    proof (cases "loop_body mbs ms pages s")
      case (Inl e)
      with True show ?thesis by (subst crawl_loop.simps) simp
    next
      case (Inr s')
      from loop_body_page [OF Inr] Suc.prems(1)
      have pg: "var_page s' = var_page s + 1" and fs: "fetched s' = fetched s @ [var_url s]"
        by simp_all
      from pg Suc.prems(2) have "nat (pages + 1 - var_page s') = k" by simp
      from Suc.IH [OF Suc.prems(1) this] obtain out fs' where
        "crawl_loop mbs ms pages s' = Some (out, fs')" "length fs' \<le> length (fetched s') + k"
        by blast
      with True Inr fs show ?thesis by (subst crawl_loop.simps) simp
    qed
  qed
qed

lemma crawl_loop_unbounded_step:
  assumes "mbs (Some url) = Inr sp"
    and "get_files_from_a_page ms sp (Some url) = Inr (pictures, next_page)"
  shows "crawl_loop mbs ms 0
           \<lparr>var_url = Some url, var_page = 0, var_crawl = True, var_images = imgs, fetched = fs\<rparr> =
         (if truthy next_page
          then crawl_loop mbs ms 0
                 \<lparr>var_url = next_page, var_page = 0, var_crawl = True,
                  var_images = imgs @ pictures, fetched = fs @ [Some url]\<rparr>
          else Some (Inr (imgs @ pictures), fs @ [Some url]))"
proof -
  let ?s' = "\<lparr>var_url = next_page, var_page = 0, var_crawl = truthy next_page,
                  var_images = imgs @ pictures, fetched = fs @ [Some url]\<rparr>"
  have "crawl_loop mbs ms 0
           \<lparr>var_url = Some url, var_page = 0, var_crawl = True, var_images = imgs, fetched = fs\<rparr>
        = crawl_loop mbs ms 0 ?s'"
    using assms by (subst crawl_loop.simps) (simp add: loop_body_cases)
  also have "\<dots> = (if truthy next_page
          then crawl_loop mbs ms 0
                 \<lparr>var_url = next_page, var_page = 0, var_crawl = True,
                  var_images = imgs @ pictures, fetched = fs @ [Some url]\<rparr>
          else Some (Inr (imgs @ pictures), fs @ [Some url]))"
  proof (cases "truthy next_page")
    case True
    then show ?thesis by simp
  next
    case False
    then show ?thesis by (subst crawl_loop.simps) simp
  qed
  finally show ?thesis .
qed

lemma crawl_loop_run:
  assumes ok: "\<And>i. i \<le> k \<Longrightarrow> \<exists>sp. mbs (Some (u i)) = Inr sp \<and>
                 get_files_from_a_page ms sp (Some (u i)) = Inr (pics i, nxt i)"
    and link: "\<And>i. i < k \<Longrightarrow> nxt i = Some (u (Suc i)) \<and> u (Suc i) \<noteq> []"
    and stop: "\<not> truthy (nxt k)"
  shows "k - j = d \<Longrightarrow> j \<le> k \<Longrightarrow>
     crawl_loop mbs ms 0
       \<lparr>var_url = Some (u j), var_page = 0, var_crawl = True, var_images = imgs, fetched = fs\<rparr>
     = Some (Inr (imgs @ concat (map pics [j..<Suc k])), fs @ map (\<lambda>i. Some (u i)) [j..<Suc k])"
proof (induction d arbitrary: j imgs fs)
  case 0
  then have j: "j = k" by simp
  from ok [of k] obtain sp where
    sp: "mbs (Some (u k)) = Inr sp" "get_files_from_a_page ms sp (Some (u k)) = Inr (pics k, nxt k)"
    by auto
  from crawl_loop_unbounded_step [where mbs = mbs and ms = ms, OF sp] stop j show ?case by simp
next
  case (Suc d)
  then have j: "j < k" by simp
  from ok [of j] j obtain sp where
    sp: "mbs (Some (u j)) = Inr sp" "get_files_from_a_page ms sp (Some (u j)) = Inr (pics j, nxt j)"
    by auto
  from link [OF j] have nx: "nxt j = Some (u (Suc j))" "u (Suc j) \<noteq> []" by simp_all
  from Suc.prems j have "k - Suc j = d" "Suc j \<le> k" by simp_all
  note ih = Suc.IH [OF this]
  from j have upt: "[j..<Suc k] = j # [Suc j..<Suc k]" by (simp add: upt_conv_Cons)
  show ?case
    by (simp add: crawl_loop_unbounded_step [where mbs = mbs and ms = ms, OF sp] nx ih upt
          del: upt_Suc)
qed

lemma crawl_loop_endless:
  assumes ok: "\<And>i. \<exists>sp. mbs (Some (u i)) = Inr sp \<and>
                 get_files_from_a_page ms sp (Some (u i)) = Inr (pics i, Some (u (Suc i)))"
    and ne: "\<And>i. u (Suc i) \<noteq> []"
  shows "crawl_loop mbs' ms' pages s = Some r \<Longrightarrow>
     mbs' = mbs \<and> ms' = ms \<and> pages = 0 \<longrightarrow>
     \<not> (var_page s = 0 \<and> var_crawl s \<and> (\<exists>i. var_url s = Some (u i)))"
proof (induction rule: crawl_loop.raw_induct [rotated 1, consumes 1])
  case (1 loop mbs' ms' pages s r)
  show ?case
  proof (intro impI notI)
    assume eq: "mbs' = mbs \<and> ms' = ms \<and> pages = 0"
      and inv: "var_page s = 0 \<and> var_crawl s \<and> (\<exists>i. var_url s = Some (u i))"
    then obtain i where i: "var_url s = Some (u i)" by blast
    from ok [of i] obtain sp where
      sp: "mbs (Some (u i)) = Inr sp"
          "get_files_from_a_page ms sp (Some (u i)) = Inr (pics i, Some (u (Suc i)))"
      by blast
    let ?s' = "\<lparr>var_url = Some (u (Suc i)), var_page = 0, var_crawl = True,
                var_images = var_images s @ pics i, fetched = fetched s @ [Some (u i)]\<rparr>"
    from eq inv i sp ne [of i] have lb: "loop_body mbs' ms' pages s = Inr ?s'"
      by (simp add: loop_body_cases)
    with "1.hyps" inv eq have "loop mbs' ms' pages ?s' = Some r" by simp
    from "1.IH" [OF this] eq show False by auto
  qed
qed


text \<open>
  With \<open>pages = 0\<close> the crawl does not return on a listing whose every page is
  extracted and names a further page.
\<close>

lemma get_all_posts_never_returns:
  assumes ok: "\<And>i. \<exists>sp. mbs (Some (u i)) = Inr sp \<and>
                 get_files_from_a_page ms sp (Some (u i)) = Inr (pics i, Some (u (Suc i)))"
    and ne: "\<And>i. u (Suc i) \<noteq> []"
  shows "get_all_posts mbs ms (u 0) 0 = None"
proof (cases "get_all_posts mbs ms (u 0) 0")
  case None
  then show ?thesis .
next
  case (Some r)
  then have "crawl_loop mbs ms 0
       \<lparr>var_url = Some (u 0), var_page = 0, var_crawl = True, var_images = [], fetched = []\<rparr>
     = Some r" by (simp add: get_all_posts_def)
  from crawl_loop_endless [of mbs u ms pics, OF ok ne this] show ?thesis by auto
qed

subsection \<open>The downloader\<close>

lemma download_files_cases:
  "download_files files destination verbose w =
     (case os_chdir w (cwd w) destination of
        Inl e \<Rightarrow> (Inl e, w)
      | Inr dir \<Rightarrow> (Inl NameError, w\<lparr>cwd := dir\<rparr>))"
  by (simp add: download_files_def chdir_def split: sum.splits)

lemma download_files_keeps:
  "fst (download_files files destination verbose w) \<noteq> Inr () \<and>
   transferred (snd (download_files files destination verbose w)) = transferred w \<and>
   databases (snd (download_files files destination verbose w)) = databases w"
  by (simp add: download_files_cases split: sum.splits)

section \<open>The download-state store\<close>

text \<open>
  C1 (upsert twice leaves exactly one row for the post URL and keeps the downloaded flag).
  The code does not get there. \<open>download_files\<close> is the only function that opens the
  database, and it writes no row: run twice on the same record, it leaves the number of
  rows stored for any post URL as it was, so a destination without a database still has
  no row for the record's URL afterwards (here the record \<open>png_record\<close> and the
  directory \<open>/home/user/memes\<close>) where the claim requires exactly one.
\<close>

theorem download_files_twice_stores_no_row:
  "rows_for
     (snd (download_files files destination verbose
       (snd (download_files files destination verbose w)))) db_path source_url
   = rows_for w db_path source_url \<and>
   rows_for
     (snd (download_files [png_record] ''/home/user/memes'' False
       (snd (download_files [png_record] ''/home/user/memes'' False fresh_world))))
     ''/home/user/memes/db.sqlite'' ''http://i.imgur.com/a.png''
   = 0"
  by (simp add: download_files_keeps rows_for_def fresh_world_def)

section \<open>The download loop\<close>

text \<open>
  C2 (for each record with a media URL that is not yet marked downloaded, transfer the
  file and mark the row). The code does neither. \<open>download_files\<close> never returns
  normally and leaves the transferred files and the databases as they were; on the
  record \<open>png_record\<close> and an existing directory it ends with NameError after changing
  the working directory. The loop it would run, \<open>download_loop\<close>, changes nothing
  either.
\<close>

theorem download_files_transfers_nothing:
  "fst (download_files files destination verbose w) \<noteq> Inr () \<and>
   transferred (snd (download_files files destination verbose w)) = transferred w \<and>
   databases (snd (download_files files destination verbose w)) = databases w \<and>
   snd (download_loop files verbose w) = w \<and>
   download_files [png_record] ''/home/user/memes'' False fresh_world
     = (Inl NameError, fresh_world\<lparr>cwd := ''/home/user/memes''\<rparr>)"
proof -
  have loop: "snd (download_loop files verbose w) = w"
    by (induction files) auto
  have run: "fst (download_files files destination verbose w) \<noteq> Inr () \<and>
     transferred (snd (download_files files destination verbose w)) = transferred w \<and>
     databases (snd (download_files files destination verbose w)) = databases w"
    by (rule download_files_keeps)
  have "download_files [png_record] ''/home/user/memes'' False fresh_world
     = (Inl NameError, fresh_world\<lparr>cwd := ''/home/user/memes''\<rparr>)"
    by (simp add: download_files_cases fresh_world_def memes_fs_def)
  with loop run show ?thesis by simp
qed

section \<open>The page-count bound\<close>

text \<open>
  C3: for every start URL, every site and every \<open>N > 0\<close>, the crawl with
  \<open>pages = N\<close> returns, and it has fetched at most \<open>N\<close> listing pages, whatever
  next-page links the pages supply.
\<close>

theorem get_all_posts_page_bound:
  "0 < N \<Longrightarrow>
     \<exists>out fs. get_all_posts mbs ms url N = Some (out, fs) \<and> length fs \<le> nat N"
proof -
  assume n: "0 < N"
  let ?s = "\<lparr>var_url = Some url, var_page = (if N \<noteq> 0 then 1 else 0), var_crawl = True,
        var_images = [], fetched = []\<rparr>"
  from n have "nat (N + 1 - var_page ?s) = nat N" by simp
  from crawl_loop_bounded [OF n this, of mbs ms] show ?thesis
    by (simp add: get_all_posts_def)
qed

text \<open>A site whose every page has a next-page link, crawled with \<open>pages = 2\<close>.\<close>

theorem get_all_posts_page_bound_witness:
  "(0::int) < 2 \<and>
   (\<exists>out fs. get_all_posts (same_page (listing [] (Some ''/r/pics?count=25''))) no_network
        ''/r/pics'' 2 = Some (out, fs) \<and> length fs \<le> nat 2)"
  using get_all_posts_page_bound
    [of 2 "same_page (listing [] (Some ''/r/pics?count=25''))" no_network "''/r/pics''"]
  by simp

section \<open>The unbounded crawl\<close>

text \<open>
  C4 as stated (with \<open>pages = 0\<close> the loop stops exactly when the page has no next-page
  marker) fails: the loop tests the truth value of the link, so a page whose next button
  is present with an empty \<open>href\<close> ends the crawl as well.
\<close>

theorem crawl_stops_on_empty_next_link:
  "find_span_next_button (listing [] (Some '''')) \<noteq> None \<and>
   get_all_posts (same_page (listing [] (Some ''''))) no_network ''/r/pics'' 0
     = Some (Inr [], [Some ''/r/pics''])"
proof -
  have "get_all_posts (same_page (listing [] (Some ''''))) no_network ''/r/pics'' 0
     = Some (Inr [], [Some ''/r/pics''])"
    unfolding get_all_posts_def
    apply (subst crawl_loop.simps)
    apply (simp add: loop_body_def fixture_defs extract_defs)
    apply (subst crawl_loop.simps)
    apply simp
    done
  then show ?thesis by (simp add: listing_def)
qed

text \<open>
  C4, amended: with \<open>pages = 0\<close>, let pages \<open>u 0\<close>, ..., \<open>u k\<close> be fetched and
  extracted without an exception, each page before the last giving the next one as a
  non-empty next-page link, and the last giving no link or an empty one. Then the crawl
  fetches exactly these pages, in this order, and returns their records: it goes on
  whenever the extracted link is a non-empty string and stops at the first page where it
  is absent or empty.
\<close>

theorem get_all_posts_unbounded_stops_at_first_missing_link:
  assumes ok: "\<forall>i\<le>k. \<exists>sp. mbs (Some (u i)) = Inr sp \<and>
                 get_files_from_a_page ms sp (Some (u i)) = Inr (pics i, nxt i)"
    and link: "\<forall>i<k. nxt i = Some (u (Suc i)) \<and> u (Suc i) \<noteq> []"
    and stop: "nxt k = None \<or> nxt k = Some []"
  shows "get_all_posts mbs ms (u 0) 0 =
     Some (Inr (concat (map pics [0..<Suc k])), map (\<lambda>i. Some (u i)) [0..<Suc k])"
proof -
  from stop have st: "\<not> truthy (nxt k)" by auto
  have "crawl_loop mbs ms 0
       \<lparr>var_url = Some (u 0), var_page = 0, var_crawl = True, var_images = [], fetched = []\<rparr>
     = Some (Inr ([] @ concat (map pics [0..<Suc k])), [] @ map (\<lambda>i. Some (u i)) [0..<Suc k])"
    by (rule crawl_loop_run [where d = k]) (use ok link st in auto)
  then show ?thesis by (simp add: get_all_posts_def)
qed

text \<open>
  The listing \<open>two_pages\<close>, crawled with \<open>pages = 0\<close>: both pages are fetched, four
  records are returned, and two of them have a media URL.
\<close>

theorem get_all_posts_unbounded_witness:
  "\<exists>imgs. get_all_posts two_pages (gfycat_with_src ''https://giant.gfycat.com/Clip.webm'')
       ''/r/pics'' 0 = Some (Inr imgs, [Some ''/r/pics'', Some ''/r/pics?count=25'']) \<and>
     length imgs = 4 \<and>
     length (filter (\<lambda>r. key_image_url (key_image r) \<noteq> None) imgs) = 2"
proof -
  let ?ms = "gfycat_with_src ''https://giant.gfycat.com/Clip.webm''"
  let ?p0 = "listing [post_div ''http://i.imgur.com/a.png'',
                      post_div ''http://example.com/gallery'',
                      post_div ''https://gfycat.com/Clip''] (Some ''/r/pics?count=25'')"
  let ?p1 = "listing [post_div ''http://example.com/story''] None"
  define u :: "nat \<Rightarrow> string" where "u i = (if i = 0 then ''/r/pics'' else ''/r/pics?count=25'')" for i
  define pics where "pics i = (case get_files_from_a_page ?ms (if i = 0 then ?p0 else ?p1) (Some (u i))
                       of Inr (ps, n) \<Rightarrow> ps | Inl e \<Rightarrow> [])" for i
  define nxt where "nxt i = (if i = (0::nat) then Some ''/r/pics?count=25'' else None)" for i
  have g0: "get_files_from_a_page ?ms ?p0 (Some (u 0)) = Inr (pics 0, nxt 0)"
    by (simp add: pics_def nxt_def u_def fixture_defs extract_defs)
  have g1: "get_files_from_a_page ?ms ?p1 (Some (u 1)) = Inr (pics 1, nxt 1)"
    by (simp add: pics_def nxt_def u_def fixture_defs extract_defs)
  have ok: "\<forall>i\<le>1. \<exists>sp. two_pages (Some (u i)) = Inr sp \<and>
                 get_files_from_a_page ?ms sp (Some (u i)) = Inr (pics i, nxt i)"
  proof (intro allI impI)
    fix i :: nat
    assume "i \<le> 1"
    then consider "i = 0" | "i = 1" by linarith
    then show "\<exists>sp. two_pages (Some (u i)) = Inr sp \<and>
                 get_files_from_a_page ?ms sp (Some (u i)) = Inr (pics i, nxt i)"
    proof cases
      case 1
      with g0 show ?thesis by (simp add: two_pages_def u_def)
    next
      case 2
      with g1 show ?thesis by (simp add: two_pages_def u_def)
    qed
  qed
  have link: "\<forall>i<1. nxt i = Some (u (Suc i)) \<and> u (Suc i) \<noteq> []"
    by (simp add: nxt_def u_def)
  have stop: "nxt 1 = None \<or> nxt 1 = Some []"
    by (simp add: nxt_def)
  have l0: "length (pics 0) = 3 \<and>
            length (filter (\<lambda>r. key_image_url (key_image r) \<noteq> None) (pics 0)) = 2"
    by (simp add: pics_def u_def fixture_defs extract_defs)
  have l1: "length (pics 1) = 1 \<and>
            length (filter (\<lambda>r. key_image_url (key_image r) \<noteq> None) (pics 1)) = 0"
    by (simp add: pics_def u_def fixture_defs extract_defs)
  have upt: "[0..<Suc 1] = [0, 1]" by (simp add: upt_rec)
  from get_all_posts_unbounded_stops_at_first_missing_link [OF ok link stop]
  have "get_all_posts two_pages ?ms ''/r/pics'' 0
          = Some (Inr (pics 0 @ pics 1), [Some ''/r/pics'', Some ''/r/pics?count=25''])"
    unfolding upt by (simp add: u_def)
  with l0 l1 show ?thesis by simp
qed

section \<open>The file name of a media URL\<close>

text \<open>
  C5 as stated (the prefix of the last segment up to the first occurrence of the
  extension; absent, and never a failure, when the URL holds no known extension) fails
  in three ways: the match is greedy, so the name runs up to the last occurrence of the
  extension; an extension that occurs in the URL but not in its last segment makes the
  function raise; and so does a URL without any known extension.
\<close>

theorem get_image_filename_counterexample:
  "get_image_filename ''http://i.imgur.com/pic.png?thumb=pic.png&s=1''
     = Inr ''pic.png?thumb=pic.png'' \<and>
   get_image_filename ''http://i.imgur.com/pic.png?thumb=pic.png&s=1'' \<noteq> Inr ''pic.png'' \<and>
   get_image_filename ''http://example.com/a.jpg/'' = Inl AttributeError \<and>
   get_image_filename ''http://example.com/gallery'' = Inl TypeError"
  by (simp add: extract_defs)

text \<open>
  C5, amended: \<open>get_image_filename\<close> returns a name exactly when the first extension
  of \<open>FILE_FORMATS\<close>, in list order, that occurs in the URL also occurs in the URL's
  last path segment after at least one character and with no line feed before it; the
  name is then the prefix of the last segment up to and including the last such
  occurrence of that extension. In every other case no name is returned.
\<close>

theorem get_image_filename_longest_match:
  "get_image_filename url = Inr name \<longleftrightarrow>
     (\<exists>ext pre p r.
        find (\<lambda>e. \<exists>ps ss. url = ps @ e @ ss) FILE_FORMATS = Some ext \<and>
        url = pre @ p @ ext @ r \<and> (pre = [] \<or> last pre = CHR ''/'') \<and>
        CHR ''/'' \<notin> set (p @ ext @ r) \<and>
        name = p @ ext \<and> p \<noteq> [] \<and> CHR 0x0A \<notin> set p \<and>
        (\<forall>p' r'. p @ ext @ r = p' @ ext @ r' \<and> p' \<noteq> [] \<and> CHR 0x0A \<notin> set p'
           \<longrightarrow> length p' \<le> length p))"
  (is "?L \<longleftrightarrow> ?R")
proof
  assume ?L
  then obtain ext where ext: "known_file_format url = Some ext"
    and m: "dot_plus ext (last_segment url) = Some name"
    by (auto simp: get_image_filename_def split: option.splits)
  from m obtain p r where seg: "last_segment url = p @ ext @ r" and n: "name = p @ ext"
    and p: "p \<noteq> []" "CHR 0x0A \<notin> set p"
    and mx: "\<forall>p' r'. last_segment url = p' @ ext @ r' \<and> p' \<noteq> [] \<and> CHR 0x0A \<notin> set p'
               \<longrightarrow> length p' \<le> length p"
    unfolding dot_plus_iff by blast
  from seg obtain pre where pre: "url = pre @ p @ ext @ r" "CHR ''/'' \<notin> set (p @ ext @ r)"
    "pre = [] \<or> last pre = CHR ''/''"
    using last_segment_iff [of url "p @ ext @ r"] by auto
  from ext have "find (\<lambda>e. \<exists>ps ss. url = ps @ e @ ss) FILE_FORMATS = Some ext"
    by (simp add: known_file_format_def first_in_find)
  with pre n p mx seg show ?R by auto
next
  assume ?R
  then obtain ext pre p r where
    f: "find (\<lambda>e. \<exists>ps ss. url = ps @ e @ ss) FILE_FORMATS = Some ext"
    and url: "url = pre @ p @ ext @ r" "pre = [] \<or> last pre = CHR ''/''"
       "CHR ''/'' \<notin> set (p @ ext @ r)"
    and n: "name = p @ ext" "p \<noteq> []" "CHR 0x0A \<notin> set p"
    and mx: "\<forall>p' r'. p @ ext @ r = p' @ ext @ r' \<and> p' \<noteq> [] \<and> CHR 0x0A \<notin> set p'
           \<longrightarrow> length p' \<le> length p"
    by blast
  from url have seg: "last_segment url = p @ ext @ r"
    using last_segment_iff [of url "p @ ext @ r"] by blast
  from f have ext: "known_file_format url = Some ext"
    by (simp add: known_file_format_def first_in_find)
  have "dot_plus ext (last_segment url) = Some name"
    unfolding dot_plus_iff seg using n mx by blast
  with ext show ?L by (simp add: get_image_filename_def)
qed

text \<open>A direct link to a \<open>.gif\<close> file with a query string.\<close>

theorem get_image_filename_longest_match_witness:
  "get_image_filename ''http://i.imgur.com/cat.gif?size=large'' = Inr ''cat.gif'' \<and>
   (\<exists>ext pre p r.
      find (\<lambda>e. \<exists>ps ss. ''http://i.imgur.com/cat.gif?size=large'' = ps @ e @ ss) FILE_FORMATS
        = Some ext \<and>
      ''http://i.imgur.com/cat.gif?size=large'' = pre @ p @ ext @ r \<and>
      ''cat.gif'' = p @ ext \<and> p \<noteq> [])"
proof -
  have e: "get_image_filename ''http://i.imgur.com/cat.gif?size=large'' = Inr ''cat.gif''"
    by (simp add: extract_defs)
  from get_image_filename_longest_match [THEN iffD1, OF e] e show ?thesis by blast
qed

section \<open>The media link resolver\<close>

text \<open>
  C6 as stated (the resolver never raises) fails for the tag \<open>gfycat\<close>: the page of the
  post is fetched, and an exception of the fetch leaves the resolver.
\<close>

theorem resolver_raises_when_fetch_fails:
  "known_domain ''https://gfycat.com/Clip'' = Some ''gfycat'' \<and>
   get_image_link_from_allowed_domain no_network ''https://gfycat.com/Clip''
     (known_domain ''https://gfycat.com/Clip'') = Inl URLError"
  by (simp add: fixture_defs extract_defs)

text \<open>
  C6, amended: for every URL and every domain tag other than \<open>gfycat\<close>, those outside
  the known set and \<open>None\<close> included, the resolver returns \<open>None\<close> and raises nothing.
  It raises only for the tag \<open>gfycat\<close>, and then exactly when fetching the page raises
  (the same exception) or the page's \<open>webmSource\<close> element has no \<open>src\<close> (KeyError).
  When the page is fetched, the result for \<open>gfycat\<close> is the \<open>src\<close> of that element,
  and \<open>None\<close> when the page has no such element.
\<close>

theorem resolver_raises_only_for_gfycat:
  "(domain \<noteq> Some ''gfycat'' \<longrightarrow>
      get_image_link_from_allowed_domain ms url domain = Inr None) \<and>
   (get_image_link_from_allowed_domain ms url domain = Inl e \<longleftrightarrow>
      domain = Some ''gfycat'' \<and>
      (ms url = Inl e \<or>
       (\<exists>sp source. ms url = Inr sp \<and> find_source_webmSource sp = Some source \<and>
          attr_src source = None \<and> e = KeyError))) \<and>
   (domain = Some ''gfycat'' \<and> ms url = Inr page \<longrightarrow>
      get_image_link_from_allowed_domain ms url domain =
        (case find_source_webmSource page of
           None \<Rightarrow> Inr None
         | Some source \<Rightarrow>
             (case attr_src source of None \<Rightarrow> Inl KeyError | Some v \<Rightarrow> Inr (Some v))))"
  by (auto simp: get_image_link_from_allowed_domain_def parse_gfycat_cases
      split: sum.splits option.splits)

text \<open>A URL of no known domain, and one with the unknown tag \<open>flickr\<close>, with no network.\<close>

theorem resolver_raises_only_for_gfycat_witness:
  "known_domain ''http://example.com/gallery'' \<noteq> Some ''gfycat'' \<and>
   get_image_link_from_allowed_domain no_network ''http://example.com/gallery''
     (known_domain ''http://example.com/gallery'') = Inr None \<and>
   get_image_link_from_allowed_domain no_network ''http://flickr.com/p/1'' (Some ''flickr'')
     = Inr None"
proof -
  have d: "known_domain ''http://example.com/gallery'' \<noteq> Some ''gfycat''"
    by (simp add: known_domain_def DOMAINS_def)
  have f: "Some ''flickr'' \<noteq> Some ''gfycat''" by simp
  from resolver_raises_only_for_gfycat
         [of "known_domain ''http://example.com/gallery''" no_network
             "''http://example.com/gallery''"] d
  have "get_image_link_from_allowed_domain no_network ''http://example.com/gallery''
     (known_domain ''http://example.com/gallery'') = Inr None" by blast
  moreover from resolver_raises_only_for_gfycat
         [of "Some ''flickr''" no_network "''http://flickr.com/p/1''"] f
  have "get_image_link_from_allowed_domain no_network ''http://flickr.com/p/1''
     (Some ''flickr'') = Inr None" by blast
  ultimately show ?thesis using d by simp
qed

section \<open>Malformed post containers\<close>

text \<open>
  C7 as stated (a container without its comments link is dropped, the other containers of
  the page are returned, the crawl goes on) fails: on a page with a well-formed container
  and one without \<open>li.first\<close>, the extraction of the page raises AttributeError, no
  record is returned, and the crawl ends with that exception.
\<close>

theorem missing_comments_link_counterexample:
  "(\<exists>r. post_of_div no_network (Some ''/r/pics'') (post_div ''http://i.imgur.com/a.png'')
          = Inr r) \<and>
   get_files_from_a_page no_network
     (listing [post_div ''http://i.imgur.com/a.png'',
               post_div_no_comments ''http://i.imgur.com/b.png''] None) (Some ''/r/pics'')
     = Inl AttributeError \<and>
   get_all_posts
     (same_page (listing [post_div ''http://i.imgur.com/a.png'',
                          post_div_no_comments ''http://i.imgur.com/b.png''] None))
     no_network ''/r/pics'' 0
     = Some (Inl AttributeError, [Some ''/r/pics''])"
proof -
  let ?page = "listing [post_div ''http://i.imgur.com/a.png'',
                        post_div_no_comments ''http://i.imgur.com/b.png''] None"
  have a: "\<exists>r. post_of_div no_network (Some ''/r/pics'') (post_div ''http://i.imgur.com/a.png'')
          = Inr r"
    by (simp add: fixture_defs extract_defs)
  have b: "get_files_from_a_page no_network ?page (Some ''/r/pics'') = Inl AttributeError"
    by (simp add: fixture_defs extract_defs)
  have c: "same_page ?page (Some ''/r/pics'') = Inr ?page" by (simp add: same_page_def)
  have "get_all_posts (same_page ?page) no_network ''/r/pics'' 0
          = Some (Inl AttributeError, [Some ''/r/pics''])"
    by (rule crawl_fails [where sp = ?page]) (simp_all add: c b)
  with a b show ?thesis by simp
qed

text \<open>
  C7, amended: when a post container of a page lacks its comments-link element, be it
  that \<open>li.first\<close> is absent or that it holds no link, the extraction of that page
  raises an exception: it returns no record at all, not even for the well-formed
  containers of the page. A crawl that fetches such a page ends there with the
  exception that the extraction of the page raises, and returns no record of any page.
\<close>

theorem missing_comments_link_fails_page:
  assumes "dv \<in> set (find_all_things sp)"
    and "find_li_first dv = None \<or> (\<exists>li. find_li_first dv = Some li \<and> li_a li = None)"
  shows "(\<exists>e. get_files_from_a_page ms sp url = Inl e) \<and>
         (var_page s \<le> pages \<and> var_crawl s \<and> mbs (var_url s) = Inr sp \<longrightarrow>
            (\<exists>e. get_files_from_a_page ms sp (var_url s) = Inl e \<and>
                 crawl_loop mbs ms pages s = Some (Inl e, fetched s @ [var_url s])))"
proof
  show "\<exists>e. get_files_from_a_page ms sp url = Inl e" by (rule page_fails [OF assms])
next
  show "var_page s \<le> pages \<and> var_crawl s \<and> mbs (var_url s) = Inr sp \<longrightarrow>
            (\<exists>e. get_files_from_a_page ms sp (var_url s) = Inl e \<and>
                 crawl_loop mbs ms pages s = Some (Inl e, fetched s @ [var_url s]))"
  proof
    assume a: "var_page s \<le> pages \<and> var_crawl s \<and> mbs (var_url s) = Inr sp"
    from page_fails [OF assms] obtain e where
      e: "get_files_from_a_page ms sp (var_url s) = Inl e" by blast
    with a have "loop_body mbs ms pages s = Inl e" by (simp add: loop_body_cases)
    with a have "crawl_loop mbs ms pages s = Some (Inl e, fetched s @ [var_url s])"
      by (subst crawl_loop.simps) simp
    with e show "\<exists>e. get_files_from_a_page ms sp (var_url s) = Inl e \<and>
                 crawl_loop mbs ms pages s = Some (Inl e, fetched s @ [var_url s])"
      by blast
  qed
qed

text \<open>
  A page with a well-formed container, for which a record can be built, and a container
  whose \<open>li.first\<close> holds no link, crawled with \<open>pages = 3\<close>: the extraction of the
  page raises TypeError, and the crawl ends with TypeError after this one page.
\<close>

theorem missing_comments_link_fails_page_witness:
  "post_div_no_comments_link ''http://i.imgur.com/b.png''
     \<in> set (find_all_things
              (listing [post_div ''http://i.imgur.com/a.png'',
                        post_div_no_comments_link ''http://i.imgur.com/b.png''] None)) \<and>
   (\<exists>li. find_li_first (post_div_no_comments_link ''http://i.imgur.com/b.png'') = Some li \<and>
         li_a li = None) \<and>
   (\<exists>r. post_of_div no_network (Some ''/r/pics'') (post_div ''http://i.imgur.com/a.png'')
          = Inr r) \<and>
   get_files_from_a_page no_network
     (listing [post_div ''http://i.imgur.com/a.png'',
               post_div_no_comments_link ''http://i.imgur.com/b.png''] None) (Some ''/r/pics'')
     = Inl TypeError \<and>
   get_all_posts
     (same_page (listing [post_div ''http://i.imgur.com/a.png'',
                          post_div_no_comments_link ''http://i.imgur.com/b.png''] None))
     no_network ''/r/pics'' 3
     = Some (Inl TypeError, [Some ''/r/pics''])"
proof -
  let ?dv = "post_div_no_comments_link ''http://i.imgur.com/b.png''"
  let ?page = "listing [post_div ''http://i.imgur.com/a.png'', ?dv] None"
  let ?s = "\<lparr>var_url = Some ''/r/pics'', var_page = 1, var_crawl = True,
             var_images = [], fetched = []\<rparr>"
  have m: "?dv \<in> set (find_all_things ?page)" by (simp add: listing_def)
  have n: "\<exists>li. find_li_first ?dv = Some li \<and> li_a li = None"
    by (simp add: post_div_no_comments_link_def)
  then have n': "find_li_first ?dv = None \<or> (\<exists>li. find_li_first ?dv = Some li \<and> li_a li = None)"
    by (rule disjI2)
  have g: "\<exists>r. post_of_div no_network (Some ''/r/pics'') (post_div ''http://i.imgur.com/a.png'')
          = Inr r"
    by (simp add: fixture_defs extract_defs)
  have x: "get_files_from_a_page no_network ?page (Some ''/r/pics'') = Inl TypeError"
    by (simp add: fixture_defs extract_defs)
  have c: "var_page ?s \<le> 3 \<and> var_crawl ?s \<and> same_page ?page (var_url ?s) = Inr ?page"
    by (simp add: same_page_def)
  from missing_comments_link_fails_page
         [OF m n', of no_network None ?s 3 "same_page ?page"] c
  obtain e where "get_files_from_a_page no_network ?page (var_url ?s) = Inl e"
    and "crawl_loop (same_page ?page) no_network 3 ?s = Some (Inl e, fetched ?s @ [var_url ?s])"
    by blast
  with x have "crawl_loop (same_page ?page) no_network 3 ?s
                 = Some (Inl TypeError, [Some ''/r/pics''])"
    by simp
  with m n g x show ?thesis by (simp add: get_all_posts_def)
qed


section \<open>Optional fields of a post container\<close>

text \<open>
  C8 as stated (an absent time element, domain label or title yields none and the
  record is still produced) fails: a container that has its title link and its comments
  link but no domain label raises AttributeError, and no record is produced.
\<close>

theorem missing_domain_label_counterexample:
  "get_post_url (post_div_no_domain ''http://i.imgur.com/a.png'')
     = Inr ''http://i.imgur.com/a.png'' \<and>
   get_link_to_comments (post_div_no_domain ''http://i.imgur.com/a.png'')
     = Inr ''/comments/1'' \<and>
   get_post_domain (post_div_no_domain ''http://i.imgur.com/a.png'') = Inl AttributeError \<and>
   post_of_div no_network (Some ''/r/pics'') (post_div_no_domain ''http://i.imgur.com/a.png'')
     = Inl AttributeError"
  by (simp add: fixture_defs extract_defs)

text \<open>
  C8, amended: take a post container that has its title link with an \<open>href\<close>, its
  comments link with an \<open>href\<close> and a \<open>time\<close> element, and whose media reference
  is built. If the domain label beside the title, or the link inside it, is absent, the
  extraction raises AttributeError and no record is produced. Otherwise the record is
  produced, and each optional value that the page does not give is \<open>None\<close> in it: the
  timestamp when the \<open>time\<close> element has no \<open>datetime\<close> attribute, the domain and
  the title when their links hold no single text.
\<close>

theorem post_of_div_optional_fields:
  assumes "find_p_title dv = Some p" "p_a p = Some a" "attr_href a = Some u"
    and "get_image ms dv = Inr i"
    and "find_li_first dv = Some li" "li_a li = Some la" "attr_href la = Some c"
    and "find_time dv = Some t"
  shows "(case p_find_span_domain p of
            None \<Rightarrow> post_of_div ms url dv = Inl AttributeError
          | Some span \<Rightarrow>
              (case span_a span of
                 None \<Rightarrow> post_of_div ms url dv = Inl AttributeError
               | Some da \<Rightarrow>
                   post_of_div ms url dv =
                     Inr \<lparr>key_url = u, key_image = i, key_domain = tag_string da,
                          key_post_title = tag_string a, key_posted_on = attr_datetime t,
                          key_link_to_comments = c, key_on_page = url,
                          key_html_status_token = 0\<rparr>))"
  using assms
  by (simp add: post_of_div_def get_post_url_cases get_post_domain_cases get_post_title_cases
        get_post_timestamp_cases get_link_to_comments_cases split: option.splits)

text \<open>
  The container \<open>post_div_sparse\<close>: no \<open>datetime\<close> attribute, no text in the domain
  label and in the title. The record is produced with \<open>None\<close> for the three values.
\<close>

theorem post_of_div_optional_fields_witness:
  "post_of_div no_network (Some ''/r/pics'') (post_div_sparse ''http://i.imgur.com/a.png'')
     = Inr \<lparr>key_url = ''http://i.imgur.com/a.png'',
            key_image = \<lparr>key_image_url = Some ''http://i.imgur.com/a.png'',
                         key_filename = Some ''a.png''\<rparr>,
            key_domain = None, key_post_title = None, key_posted_on = None,
            key_link_to_comments = ''/comments/2'', key_on_page = Some ''/r/pics'',
            key_html_status_token = 0\<rparr>"
proof -
  let ?dv = "post_div_sparse ''http://i.imgur.com/a.png''"
  let ?a = "\<lparr>attr_href = Some ''http://i.imgur.com/a.png'', tag_string = None\<rparr>"
  let ?da = "\<lparr>attr_href = None, tag_string = None\<rparr> :: a_tag"
  let ?p = "\<lparr>p_a = Some ?a, p_find_span_domain = Some \<lparr>span_a = Some ?da\<rparr>\<rparr>"
  let ?la = "link ''/comments/2'' ''comments''"
  let ?li = "\<lparr>li_a = Some ?la\<rparr>"
  let ?t = "\<lparr>attr_datetime = None\<rparr>"
  let ?i = "\<lparr>key_image_url = Some ''http://i.imgur.com/a.png'', key_filename = Some ''a.png''\<rparr>"
  have h1: "find_p_title ?dv = Some ?p" by (simp add: post_div_sparse_def)
  have h2: "p_a ?p = Some ?a" by simp
  have h3: "attr_href ?a = Some ''http://i.imgur.com/a.png''" by simp
  have h4: "get_image no_network ?dv = Inr ?i" by (simp add: fixture_defs extract_defs)
  have h5: "find_li_first ?dv = Some ?li" by (simp add: post_div_sparse_def)
  have h6: "li_a ?li = Some ?la" by simp
  have h7: "attr_href ?la = Some ''/comments/2''" by (simp add: link_def)
  have h8: "find_time ?dv = Some ?t" by (simp add: post_div_sparse_def)
  from post_of_div_optional_fields [OF h1 h2 h3 h4 h5 h6 h7 h8, of "Some ''/r/pics''"]
  show ?thesis by simp
qed

section \<open>The media reference\<close>

text \<open>
  C9 as stated (building the media reference never fails, and outside the case of a
  file name both fields are absent) fails: a post URL that holds a known extension
  outside its last path segment makes \<open>get_image\<close> raise, and a gfycat page whose
  \<open>webmSource\<close> has an empty \<open>src\<close> gives a reference with an image URL, the empty
  string, and no file name.
\<close>

theorem get_image_counterexample:
  "get_image no_network (post_div ''http://example.com/a.jpg/'') = Inl AttributeError \<and>
   get_image (gfycat_with_src '''') (post_div ''https://gfycat.com/Clip'')
     = Inr \<lparr>key_image_url = Some [], key_filename = None\<rparr>"
  by (simp add: fixture_defs extract_defs)

text \<open>
  C9, amended: for every media reference that \<open>get_image\<close> returns, the file name is
  present if and only if the image URL is present and holds a known extension; when the
  file name is absent, the image URL is absent or the empty string; and when both are
  present, the file name is the one \<open>get_image_filename\<close> derives from the image URL.
  (Building the reference can raise.)
\<close>

theorem get_image_filename_iff_known_extension:
  assumes "get_image ms dv = Inr i"
  shows "(key_filename i \<noteq> None \<longleftrightarrow>
            (\<exists>u. key_image_url i = Some u \<and> known_file_format u \<noteq> None)) \<and>
         (key_filename i = None \<longrightarrow> key_image_url i = None \<or> key_image_url i = Some []) \<and>
         (\<forall>u n. key_image_url i = Some u \<and> key_filename i = Some n \<longrightarrow>
            get_image_filename u = Inr n)"
proof -
  from assms obtain url where url: "get_post_url dv = Inr url"
    by (cases "get_post_url dv") (auto simp: get_image_def)
  show ?thesis
  proof (cases "known_file_format url \<noteq> None")
    case True
    with assms url obtain n where "get_image_filename url = Inr n"
      "i = image_dictionary (Some url) (Some n)"
      by (cases "get_image_filename url") (auto simp: get_image_def truthy_known_file_format)
    with True show ?thesis by (simp add: image_dictionary_def)
  next
    case False
    with assms url obtain image_url where
      r: "get_image_link_from_allowed_domain ms url (known_domain url) = Inr image_url"
      by (cases "get_image_link_from_allowed_domain ms url (known_domain url)")
         (auto simp: get_image_def truthy_known_file_format)
    show ?thesis
    proof (cases "truthy image_url")
      case f: False
      with assms url False r have "i = image_dictionary image_url None"
        by (auto simp: get_image_def truthy_known_file_format split: option.splits)
      with f show ?thesis
        by (cases image_url) (auto simp: image_dictionary_def known_file_format_Nil)
    next
      case t: True
      then obtain v where v: "image_url = Some v" "v \<noteq> []" by (cases image_url) auto
      with assms url False r obtain n where
        "get_image_filename v = Inr n" "i = image_dictionary (Some v) (Some n)"
        by (cases "get_image_filename v") (auto simp: get_image_def truthy_known_file_format)
      then show ?thesis
        using get_image_filename_Inr [of v n] by (simp add: image_dictionary_def)
    qed
  qed
qed

text \<open>A gfycat post whose page gives a \<open>.webm\<close> source.\<close>

theorem get_image_filename_iff_known_extension_witness:
  "get_image (gfycat_with_src ''https://giant.gfycat.com/Clip.webm'')
       (post_div ''https://gfycat.com/Clip'')
     = Inr \<lparr>key_image_url = Some ''https://giant.gfycat.com/Clip.webm'',
            key_filename = Some ''Clip.webm''\<rparr> \<and>
   (\<exists>u. Some ''https://giant.gfycat.com/Clip.webm'' = Some u \<and> known_file_format u \<noteq> None) \<and>
   get_image_filename ''https://giant.gfycat.com/Clip.webm'' = Inr ''Clip.webm''"
proof -
  let ?i = "\<lparr>key_image_url = Some ''https://giant.gfycat.com/Clip.webm'',
             key_filename = Some ''Clip.webm''\<rparr>"
  have e: "get_image (gfycat_with_src ''https://giant.gfycat.com/Clip.webm'')
             (post_div ''https://gfycat.com/Clip'') = Inr ?i"
    by (simp add: fixture_defs extract_defs)
  from get_image_filename_iff_known_extension [OF e] e show ?thesis by simp
qed

section \<open>Known domains\<close>

text \<open>
  C10: for every URL, \<open>known_domain\<close> returns the first element of \<open>DOMAINS\<close>, in list
  order, that occurs somewhere in the URL as a contiguous substring, and \<open>None\<close> when
  no element does. The host part plays no role.
\<close>

theorem known_domain_first_substring:
  "known_domain url = find (\<lambda>d. \<exists>ps ss. url = ps @ d @ ss) DOMAINS"
  by (simp add: known_domain_def first_in_find)

text \<open>A URL that holds \<open>imgur\<close> in its path and \<open>reddit\<close> in its query only.\<close>

theorem known_domain_first_substring_witness:
  "known_domain ''http://example.com/imgur-mirror?from=reddit'' = Some ''reddit'' \<and>
   find (\<lambda>d. \<exists>ps ss. ''http://example.com/imgur-mirror?from=reddit'' = ps @ d @ ss) DOMAINS
     = Some ''reddit''"
proof -
  have "known_domain ''http://example.com/imgur-mirror?from=reddit'' = Some ''reddit''"
    by (simp add: known_domain_def DOMAINS_def)
  with known_domain_first_substring [of "''http://example.com/imgur-mirror?from=reddit''"]
  show ?thesis by simp
qed

end
